theory Spec2Isabelle
  imports Complex_Main "HOL-Library.AList"
begin

section \<open>The Python values the module works with\<close>

text \<open>
  The module \<^verbatim>\<open>bberg/sftp.py\<close> has three parts: the parser
  \<^verbatim>\<open>parse_hist_security_response\<close>, the request builder of class \<^verbatim>\<open>Sftp\<close>
  and the polling loop of \<^verbatim>\<open>Sftp.request\<close>. Strings are \<open>string\<close>; a Python
  \<^verbatim>\<open>dict\<close> is an association list in insertion order with distinct keys; every
  exception the code can raise is a value of \<open>error\<close>.
\<close>

datatype error = AssertionError | ValueError | IndexError

datatype log_record = Info string | Warning string | Debug string

type_synonym ('k, 'v) dict = "('k \<times> 'v) list"

definition dict_get :: "('k, 'v) dict \<Rightarrow> 'k \<Rightarrow> 'v option" where
  "dict_get d k = map_of d k"

definition dict_set :: "'k \<Rightarrow> 'v \<Rightarrow> ('k, 'v) dict \<Rightarrow> ('k, 'v) dict" where
  "dict_set k v d = AList.update k v d"

definition keys :: "('k, 'v) dict \<Rightarrow> 'k list" where
  "keys d = map fst d"

subsection \<open>Lines and tokens\<close>

definition newline :: char where
  "newline = CHR 0x0A"

definition pipe :: char where
  "pipe = CHR ''|''"

text \<open>
  \<^verbatim>\<open>for line in StringIO(response)\<close>: the text is cut after every line feed, each
  line keeps its line feed, and a last line without one is yielded when it is not
  empty.
\<close>

fun iter_lines :: "string \<Rightarrow> string list" where
  "iter_lines [] = []"
| "iter_lines (c # cs) =
     (if c = newline then [c] # iter_lines cs
      else (case iter_lines cs of [] \<Rightarrow> [[c]] | l # ls \<Rightarrow> (c # l) # ls))"

text \<open>
  \<^verbatim>\<open>s.split(sep, maxsplit)\<close>: at most \<open>maxsplit\<close> cuts, from the left; the rest of
  the text, separators included, is the last piece. The result is never empty.
\<close>

fun split_max :: "char \<Rightarrow> nat \<Rightarrow> string \<Rightarrow> string list" where
  "split_max sep n [] = [[]]"
| "split_max sep 0 s = [s]"
| "split_max sep (Suc n) (c # cs) =
     (if c = sep then [] # split_max sep n cs
      else (case split_max sep (Suc n) cs of
              [] \<Rightarrow> [[c]]
            | p # ps \<Rightarrow> (c # p) # ps))"

text \<open>\<^verbatim>\<open>s.split(sep)\<close> without a limit.\<close>

fun split_all :: "char \<Rightarrow> string \<Rightarrow> string list" where
  "split_all sep [] = [[]]"
| "split_all sep (c # cs) =
     (if c = sep then [] # split_all sep cs
      else (case split_all sep cs of
              [] \<Rightarrow> [[c]]
            | p # ps \<Rightarrow> (c # p) # ps))"

text \<open>\<^verbatim>\<open>bits[i]\<close> raises \<^verbatim>\<open>IndexError\<close> past the end of the list.\<close>

definition item :: "'a list \<Rightarrow> nat \<Rightarrow> error + 'a" where
  "item xs i = (if i < length xs then Inr (xs ! i) else Inl IndexError)"

text \<open>\<^verbatim>\<open>sep.join(xs)\<close>.\<close>

fun join :: "string \<Rightarrow> string list \<Rightarrow> string" where
  "join sep [] = []"
| "join sep [x] = x"
| "join sep (x # y # ys) = x @ sep @ join sep (y # ys)"

subsection \<open>Numbers to text and back\<close>

definition digit_char :: "nat \<Rightarrow> char" where
  "digit_char d = ''0123456789'' ! d"

definition digit_val :: "char \<Rightarrow> nat option" where
  "digit_val c =
     map_of [(CHR ''0'', 0), (CHR ''1'', 1), (CHR ''2'', 2), (CHR ''3'', 3), (CHR ''4'', 4),
             (CHR ''5'', 5), (CHR ''6'', 6), (CHR ''7'', 7), (CHR ''8'', 8), (CHR ''9'', 9)] c"

function str_nat :: "nat \<Rightarrow> string" where
  "str_nat n = (if n < 10 then [digit_char n] else str_nat (n div 10) @ [digit_char (n mod 10)])"
  by pat_completeness auto
termination
  by (relation "measure id") auto

declare str_nat.simps [simp del]

text \<open>\<^verbatim>\<open>str(i)\<close>, which is what \<^verbatim>\<open>'{}'.format(i)\<close> inserts for an \<^verbatim>\<open>int\<close>.\<close>

definition str_int :: "int \<Rightarrow> string" where
  "str_int i = (if i < 0 then CHR ''-'' # str_nat (nat (- i)) else str_nat (nat i))"

text \<open>
  The white space that \<^verbatim>\<open>int\<close> and \<^verbatim>\<open>float\<close> drop at both ends of their
  argument (the ASCII part of it).
\<close>

definition py_space :: "char \<Rightarrow> bool" where
  "py_space c \<longleftrightarrow> c \<in> set [CHR '' '', CHR 0x09, CHR 0x0A, CHR 0x0B, CHR 0x0C, CHR 0x0D,
                             CHR 0x1C, CHR 0x1D, CHR 0x1E, CHR 0x1F]"

definition strip :: "string \<Rightarrow> string" where
  "strip s = rev (dropWhile py_space (rev (dropWhile py_space s)))"

text \<open>
  A run of decimal digits in which single underscores may stand between two digits
  (\<^verbatim>\<open>digitpart\<close> of the Python grammar); the digits' values on success.
\<close>

fun digitpart :: "string \<Rightarrow> nat list option" where
  "digitpart [] = None"
| "digitpart [c] = map_option (\<lambda>v. [v]) (digit_val c)"
| "digitpart (c # d # cs) =
     (case digit_val c of
        None \<Rightarrow> None
      | Some v \<Rightarrow>
          (if d = CHR ''_'' then map_option ((#) v) (digitpart cs)
           else map_option ((#) v) (digitpart (d # cs))))"

definition digits_value :: "nat list \<Rightarrow> nat" where
  "digits_value ds = foldl (\<lambda>a d. 10 * a + d) 0 ds"

text \<open>An optional sign in front of the rest.\<close>

definition split_sign :: "string \<Rightarrow> bool \<times> string" where
  "split_sign s =
     (case s of
        [] \<Rightarrow> (False, [])
      | c # r \<Rightarrow> if c = CHR ''-'' then (True, r) else if c = CHR ''+'' then (False, r) else (False, s))"

text \<open>
  \<^verbatim>\<open>int(s)\<close> in base ten; \<^verbatim>\<open>ValueError\<close> when the text is no integer literal.
  The limit that recent interpreters put on the number of digits is not modelled.
\<close>

definition py_int :: "string \<Rightarrow> error + int" where
  "py_int s =
     (let (neg, body) = split_sign (strip s) in
      case digitpart body of
        None \<Rightarrow> Inl ValueError
      | Some ds \<Rightarrow> Inr (if neg then - int (digits_value ds) else int (digits_value ds)))"


subsection \<open>Floating-point literals\<close>

text \<open>
  \<^verbatim>\<open>float(s)\<close> accepts, between optional white space and after an optional sign,
  \<^verbatim>\<open>inf\<close>, \<^verbatim>\<open>infinity\<close> and \<^verbatim>\<open>nan\<close> in any letter case, or a decimal
  literal \<^verbatim>\<open>[digitpart] "." digitpart | digitpart ["."]\<close> with an optional
  exponent \<^verbatim>\<open>("e" | "E") ["+" | "-"] digitpart\<close>; anything else is a
  \<^verbatim>\<open>ValueError\<close>. \<open>Finite r\<close> carries the decimal value the literal denotes.
  The rounding of that value to a binary64 is modelled only where the code depends on
  it, in \<open>truthy\<close>.
\<close>

datatype pyfloat = Finite rat | Infinity bool | NaN

definition lower :: "char \<Rightarrow> char" where
  "lower c =
     (case map_of (zip ''ABCDEFGHIJKLMNOPQRSTUVWXYZ'' ''abcdefghijklmnopqrstuvwxyz'') c of
        Some l \<Rightarrow> l
      | None \<Rightarrow> c)"

text \<open>The text before the first character satisfying \<open>P\<close>, and the text after it if there is one.\<close>

definition break_at :: "(char \<Rightarrow> bool) \<Rightarrow> string \<Rightarrow> string \<times> string option" where
  "break_at P s =
     (takeWhile (\<lambda>c. \<not> P c) s,
      case dropWhile (\<lambda>c. \<not> P c) s of [] \<Rightarrow> None | _ # r \<Rightarrow> Some r)"

definition opt_digits :: "string \<Rightarrow> nat list option" where
  "opt_digits s = (if s = [] then Some [] else digitpart s)"

text \<open>The digits of a mantissa read as one integer, and the number of digits after the point.\<close>

definition mantissa :: "string \<Rightarrow> (nat \<times> nat) option" where
  "mantissa s =
     (case break_at (\<lambda>c. c = CHR ''.'') s of
        (ip, None) \<Rightarrow> map_option (\<lambda>ds. (digits_value ds, 0)) (digitpart ip)
      | (ip, Some fp) \<Rightarrow>
          if ip = [] \<and> fp = [] then None
          else (case opt_digits ip of
                  None \<Rightarrow> None
                | Some a \<Rightarrow>
                    (case opt_digits fp of
                       None \<Rightarrow> None
                     | Some b \<Rightarrow> Some (digits_value (a @ b), length b))))"

definition exponent :: "string \<Rightarrow> int option" where
  "exponent s =
     (let (neg, body) = split_sign s in
      map_option (\<lambda>ds. if neg then - int (digits_value ds) else int (digits_value ds))
        (digitpart body))"

definition scale10 :: "nat \<Rightarrow> int \<Rightarrow> rat" where
  "scale10 m k = (if 0 \<le> k then of_nat m * 10 ^ nat k else of_nat m / 10 ^ nat (- k))"

definition py_float :: "string \<Rightarrow> error + pyfloat" where
  "py_float s =
     (let (neg, body) = split_sign (strip s); word = map lower body in
      if word = ''inf'' \<or> word = ''infinity'' then Inr (Infinity neg)
      else if word = ''nan'' then Inr NaN
      else (case break_at (\<lambda>c. c = CHR ''e'' \<or> c = CHR ''E'') body of
              (m, e) \<Rightarrow>
                (case mantissa m of
                   None \<Rightarrow> Inl ValueError
                 | Some (ds, places) \<Rightarrow>
                     (case (case e of None \<Rightarrow> Some 0 | Some t \<Rightarrow> exponent t) of
                        None \<Rightarrow> Inl ValueError
                      | Some k \<Rightarrow>
                          Inr (Finite ((if neg then - 1 else 1) * scale10 ds (k - int places)))))))"

text \<open>
  \<^verbatim>\<open>if val:\<close> for a float: false exactly for zero. A decimal of magnitude at most
  \<open>2\<^sup>-\<^sup>1\<^sup>0\<^sup>7\<^sup>5\<close> rounds to the binary64 zero (the smallest positive binary64 is
  \<open>2\<^sup>-\<^sup>1\<^sup>0\<^sup>7\<^sup>4\<close>, and the tie goes to the even neighbour, zero); infinities and
  \<^verbatim>\<open>nan\<close> are true.
\<close>

definition truthy :: "pyfloat \<Rightarrow> bool" where
  "truthy v = (case v of Finite r \<Rightarrow> 1 < \<bar>r\<bar> * 2 ^ 1075 | Infinity _ \<Rightarrow> True | NaN \<Rightarrow> True)"

subsection \<open>Dates\<close>

text \<open>
  A calendar day is its proleptic Gregorian ordinal (\<^verbatim>\<open>date.toordinal()\<close>).
  \<^verbatim>\<open>datetime.strptime(s, '%d/%m/%Y')\<close> wants the whole text to be a day (\<^verbatim>\<open>01\<close>
  to \<^verbatim>\<open>31\<close>, the leading zero optional or a blank), a slash, a month (\<^verbatim>\<open>01\<close> to
  \<^verbatim>\<open>12\<close>, the leading zero optional), a slash and four digits of year, and that
  these name a day of the calendar; otherwise it raises \<^verbatim>\<open>ValueError\<close>.
\<close>

definition nonzero_digit :: "char \<Rightarrow> nat option" where
  "nonzero_digit c = (case digit_val c of None \<Rightarrow> None | Some v \<Rightarrow> if 1 \<le> v then Some v else None)"

definition two_digits :: "char \<Rightarrow> char \<Rightarrow> nat option" where
  "two_digits a b =
     (case digit_val a of
        None \<Rightarrow> None
      | Some x \<Rightarrow> (case digit_val b of None \<Rightarrow> None | Some y \<Rightarrow> Some (10 * x + y)))"

definition day_directive :: "string \<Rightarrow> nat option" where
  "day_directive s =
     (case s of
        [a] \<Rightarrow> nonzero_digit a
      | [a, b] \<Rightarrow>
          if a = CHR '' '' then nonzero_digit b
          else (case two_digits a b of
                  None \<Rightarrow> None
                | Some n \<Rightarrow> if 1 \<le> n \<and> n \<le> 31 then Some n else None)
      | _ \<Rightarrow> None)"

definition month_directive :: "string \<Rightarrow> nat option" where
  "month_directive s =
     (case s of
        [a] \<Rightarrow> nonzero_digit a
      | [a, b] \<Rightarrow>
          (case two_digits a b of
             None \<Rightarrow> None
           | Some n \<Rightarrow> if 1 \<le> n \<and> n \<le> 12 then Some n else None)
      | _ \<Rightarrow> None)"

definition year_directive :: "string \<Rightarrow> nat option" where
  "year_directive s =
     (case s of
        [a, b, c, d] \<Rightarrow>
          (case two_digits a b of
             None \<Rightarrow> None
           | Some h \<Rightarrow> (case two_digits c d of None \<Rightarrow> None | Some l \<Rightarrow> Some (100 * h + l)))
      | _ \<Rightarrow> None)"

definition is_leap :: "nat \<Rightarrow> bool" where
  "is_leap y \<longleftrightarrow> y mod 4 = 0 \<and> (y mod 100 \<noteq> 0 \<or> y mod 400 = 0)"

definition days_in_month :: "nat \<Rightarrow> nat \<Rightarrow> nat" where
  "days_in_month y m =
     (if m = 2 then (if is_leap y then 29 else 28)
      else if m \<in> set [4, 6, 9, 11] then 30 else 31)"

definition ordinal :: "nat \<Rightarrow> nat \<Rightarrow> nat \<Rightarrow> int" where
  "ordinal y m d =
     (let p = int y - 1 in
      p * 365 + p div 4 - p div 100 + p div 400
        + int (sum_list (map (days_in_month y) [1 ..< m])) + int d)"

definition strptime :: "string \<Rightarrow> error + int" where
  "strptime s =
     (case split_all (CHR ''/'') s of
        [d, m, y] \<Rightarrow>
          (case day_directive d of
             None \<Rightarrow> Inl ValueError
           | Some dd \<Rightarrow>
               (case month_directive m of
                  None \<Rightarrow> Inl ValueError
                | Some mm \<Rightarrow>
                    (case year_directive y of
                       None \<Rightarrow> Inl ValueError
                     | Some yy \<Rightarrow>
                         if 1 \<le> yy \<and> dd \<le> days_in_month yy mm then Inr (ordinal yy mm dd)
                         else Inl ValueError)))
      | _ \<Rightarrow> Inl ValueError)"


section \<open>The response parser\<close>

subsection \<open>Tables\<close>

text \<open>
  A \<^verbatim>\<open>pandas.DataFrame\<close>: the row labels (days), the column labels and the cells;
  a cell that holds nothing is \<open>None\<close> (pandas shows it as \<^verbatim>\<open>NaN\<close>).
\<close>

record dataframe =
  index :: "int list"
  columns :: "string list"
  cells :: "int \<times> string \<Rightarrow> pyfloat option"

text \<open>\<^verbatim>\<open>pd.date_range(begin_date, end_date)\<close>: every day from the first to the last, none when the first is later.\<close>

definition date_range :: "int \<Rightarrow> int \<Rightarrow> int list" where
  "date_range begin_date end_date = [begin_date .. end_date]"

text \<open>\<^verbatim>\<open>pd.DataFrame(index=pd.date_range(begin_date, end_date), columns=fields)\<close>.\<close>

definition new_frame :: "int \<Rightarrow> int \<Rightarrow> string list \<Rightarrow> dataframe" where
  "new_frame begin_date end_date flds =
     \<lparr>index = date_range begin_date end_date, columns = flds, cells = (\<lambda>_. None)\<rparr>"

text \<open>
  \<^verbatim>\<open>dframe.loc[day, col] = val\<close>. Assignment through \<^verbatim>\<open>.loc\<close> enlarges the table:
  a row label that the index does not have is appended to the index, and a column
  label that the table does not have is appended to the columns. Storing \<^verbatim>\<open>nan\<close>
  leaves the cell holding nothing.
\<close>

definition loc_set :: "int \<Rightarrow> string \<Rightarrow> pyfloat \<Rightarrow> dataframe \<Rightarrow> dataframe" where
  "loc_set day c val df =
     df\<lparr>index := (if day \<in> set (index df) then index df else index df @ [day]),
        columns := (if c \<in> set (columns df) then columns df else columns df @ [c]),
        cells := (cells df)((day, c) := (if val = NaN then None else Some val))\<rparr>"

subsection \<open>The state of the loop\<close>

text \<open>
  The local variables of \<^verbatim>\<open>parse_hist_security_response\<close>, and the records handed
  to the module's logger. \<^verbatim>\<open>sec\<close> and \<^verbatim>\<open>col\<close> are unbound until the first
  \<^verbatim>\<open>START SECURITY\<close> line; they are read only while \<^verbatim>\<open>in_sec\<close> holds, which
  that line sets together with them. The variable \<^verbatim>\<open>dframe\<close> is always the object
  stored in \<^verbatim>\<open>dframes\<close> under \<^verbatim>\<open>sec\<close>, so a write through it is a change of that
  entry (\<open>mutate\<close>).
\<close>

record parser =
  in_sec :: bool
  sec :: string
  col :: string
  dframes :: "(string, dataframe) dict"
  records :: "log_record list"

definition mutate :: "'k \<Rightarrow> ('v \<Rightarrow> 'v) \<Rightarrow> ('k, 'v) dict \<Rightarrow> ('k, 'v) dict" where
  "mutate k f d = map (\<lambda>(k', v). (k', if k' = k then f v else v)) d"

definition return_code_message :: "int \<Rightarrow> string \<Rightarrow> string" where
  "return_code_message ret_code s =
     ''Received return code: '' @ str_int ret_code @ '' for history request for security: '' @ s"

definition convert_message :: "string \<Rightarrow> string" where
  "convert_message tok = ''Could not convert val: '' @ tok @ '' to float''"

text \<open>Lines 30 to 35: the line that closes a block.\<close>

definition end_security :: "parser \<Rightarrow> string list \<Rightarrow> error + parser" where
  "end_security st bits =
     (case item bits 3 of
        Inl err \<Rightarrow> Inl err
      | Inr tok \<Rightarrow>
          (case py_int tok of
             Inl err \<Rightarrow> Inl err
           | Inr ret_code \<Rightarrow>
               Inr (st\<lparr>in_sec := False,
                       records :=
                         (if ret_code \<noteq> 0
                          then records st @ [Warning (return_code_message ret_code (sec st))]
                          else records st)\<rparr>)))"

text \<open>
  Lines 37 to 44: a line of data. The \<^verbatim>\<open>assert\<close> is executed (the interpreter
  runs without \<^verbatim>\<open>-O\<close>). Only the \<^verbatim>\<open>ValueError\<close> of \<^verbatim>\<open>float\<close> is
  caught; \<^verbatim>\<open>bits[2]\<close> is evaluated inside the \<^verbatim>\<open>try\<close> but its
  \<^verbatim>\<open>IndexError\<close> is not.
\<close>

definition data_line :: "parser \<Rightarrow> string list \<Rightarrow> error + parser" where
  "data_line st bits =
     (if hd bits \<noteq> sec st then Inl AssertionError
      else
        (case item bits 2 of
           Inl err \<Rightarrow> Inl err
         | Inr tok \<Rightarrow>
             (case py_float tok of
                Inl _ \<Rightarrow> Inr (st\<lparr>records := records st @ [Debug (convert_message tok)]\<rparr>)
              | Inr val \<Rightarrow>
                  if truthy val then
                    (case item bits 1 of
                       Inl err \<Rightarrow> Inl err
                     | Inr dtok \<Rightarrow>
                         (case strptime dtok of
                            Inl err \<Rightarrow> Inl err
                          | Inr day \<Rightarrow>
                              Inr (st\<lparr>dframes :=
                                        mutate (sec st) (loc_set day (col st) val) (dframes st)\<rparr>)))
                  else Inr st)))"

text \<open>Lines 46 to 54: the line that opens a block.\<close>

definition start_security :: "int \<Rightarrow> int \<Rightarrow> string list \<Rightarrow> parser \<Rightarrow> string list \<Rightarrow> error + parser" where
  "start_security begin_date end_date flds st bits =
     (case item bits 1 of
        Inl err \<Rightarrow> Inl err
      | Inr s \<Rightarrow>
          (case item bits 2 of
             Inl err \<Rightarrow> Inl err
           | Inr c \<Rightarrow>
               Inr (st\<lparr>in_sec := True, sec := s, col := c,
                       dframes :=
                         (if s \<in> set (keys (dframes st)) then dframes st
                          else dict_set s (new_frame begin_date end_date flds) (dframes st))\<rparr>)))"

text \<open>The body of the loop, for one line. \<^verbatim>\<open>bits[0]\<close> always exists.\<close>

definition process_line :: "int \<Rightarrow> int \<Rightarrow> string list \<Rightarrow> parser \<Rightarrow> string \<Rightarrow> error + parser" where
  "process_line begin_date end_date flds st line =
     (let bits = split_max pipe 4 line in
      if in_sec st then
        (if hd bits = ''END SECURITY'' then end_security st bits else data_line st bits)
      else if hd bits = ''START SECURITY'' then start_security begin_date end_date flds st bits
      else Inr st)"

fun parse_lines :: "int \<Rightarrow> int \<Rightarrow> string list \<Rightarrow> parser \<Rightarrow> string list \<Rightarrow> error + parser" where
  "parse_lines begin_date end_date flds st [] = Inr st"
| "parse_lines begin_date end_date flds st (line # rest) =
     (case process_line begin_date end_date flds st line of
        Inl err \<Rightarrow> Inl err
      | Inr st' \<Rightarrow> parse_lines begin_date end_date flds st' rest)"

definition initial :: "log_record list \<Rightarrow> parser" where
  "initial logger = \<lparr>in_sec = False, sec = [], col = [], dframes = [], records = logger\<rparr>"

text \<open>
  The function itself. Its first argument is what the module-level \<^verbatim>\<open>logger\<close>
  holds when the call starts; the result is the returned \<^verbatim>\<open>dframes\<close> and what
  the logger holds at the end, or the exception that ended the call.
\<close>

definition parse_hist_security_response ::
  "log_record list \<Rightarrow> string \<Rightarrow> int \<Rightarrow> int \<Rightarrow> string list
     \<Rightarrow> error + ((string, dataframe) dict \<times> log_record list)" where
  "parse_hist_security_response logger response begin_date end_date flds =
     (case parse_lines begin_date end_date flds (initial logger) (iter_lines response) of
        Inl err \<Rightarrow> Inl err
      | Inr st \<Rightarrow> Inr (dframes st, records st))"


subsection \<open>Vocabulary for the properties of the parser\<close>

text \<open>
  A text that ends where a line ends; and a text \<open>line\<close> that is the first line the
  loop reads from \<open>line @ post\<close>: it ends with the first line feed, or it has no line
  feed and nothing follows it.
\<close>

definition at_line_start :: "string \<Rightarrow> bool" where
  "at_line_start pre \<longleftrightarrow> pre = [] \<or> last pre = newline"

definition next_line :: "string \<Rightarrow> string \<Rightarrow> bool" where
  "next_line line post \<longleftrightarrow>
     line \<noteq> [] \<and> newline \<notin> set (butlast line) \<and> (last line = newline \<or> post = [])"

text \<open>The state of the loop when the lines of \<open>pre\<close> have been read.\<close>

definition state_after :: "log_record list \<Rightarrow> string \<Rightarrow> int \<Rightarrow> int \<Rightarrow> string list \<Rightarrow> error + parser" where
  "state_after logger pre begin_date end_date flds =
     parse_lines begin_date end_date flds (initial logger) (iter_lines pre)"

text \<open>The tokens of a line, as the loop cuts them.\<close>

definition bits_of :: "string \<Rightarrow> string list" where
  "bits_of line = split_max pipe 4 line"




text \<open>
  A table that has the shape of a new one and possibly more: the days of the range are
  the first rows, the requested fields the first columns, no day occurs twice, and the
  columns after the requested ones are distinct and not requested.
\<close>

definition extends_frame :: "int \<Rightarrow> int \<Rightarrow> string list \<Rightarrow> dataframe \<Rightarrow> bool" where
  "extends_frame begin_date end_date flds df \<longleftrightarrow>
     take (length (date_range begin_date end_date)) (index df) = date_range begin_date end_date
     \<and> distinct (index df)
     \<and> take (length flds) (columns df) = flds
     \<and> distinct (drop (length flds) (columns df))
     \<and> (\<forall>c \<in> set (drop (length flds) (columns df)). c \<notin> set flds)"

text \<open>The row labels of the table of an entity in the outcome of a call.\<close>

definition rows_of :: "error + ((string, dataframe) dict \<times> log_record list) \<Rightarrow> string \<Rightarrow> int list option" where
  "rows_of r k = (case r of Inl _ \<Rightarrow> None | Inr (d, _) \<Rightarrow> map_option index (dict_get d k))"


section \<open>The request builder\<close>

text \<open>
  An object of class \<^verbatim>\<open>Sftp\<close>. \<^verbatim>\<open>__init__\<close> reads the clock once; the text it
  formats the time to (\<^verbatim>\<open>strftime('%Y%m%d%H%M%S')\<close>) is an argument here.
\<close>

record sftp =
  tstr :: string
  request_id :: int
  host :: string
  username :: string
  password :: string

definition init :: "string \<Rightarrow> string \<Rightarrow> string \<Rightarrow> string \<Rightarrow> sftp" where
  "init now h u p = \<lparr>tstr = now, request_id = 0, host = h, username = u, password = p\<rparr>"

definition opening_stanza :: string where
  "opening_stanza = ''START-OF-FILE'' @ [newline]"

definition closing_stanza :: string where
  "closing_stanza = [newline] @ ''END-OF-FILE'' @ [newline]"

definition start_of_fields :: string where
  "start_of_fields = [newline] @ ''START-OF-FIELDS'' @ [newline]"

definition end_of_fields :: string where
  "end_of_fields = [newline] @ ''END-OF-FIELDS'' @ [newline]"

definition start_of_data :: string where
  "start_of_data = ''START-OF-DATA'' @ [newline]"

definition end_of_data :: string where
  "end_of_data = [newline] @ ''END-OF-DATA'' @ [newline]"

definition spaces :: "nat \<Rightarrow> string" where
  "spaces n = replicate n (CHR '' '')"

text \<open>
  The triple-quoted literal of \<^verbatim>\<open>_build_header\<close> keeps the indentation of the
  source: twelve blanks in front of each of its four entries, eight after the last
  line feed.
\<close>

definition mandatory_header :: "string \<Rightarrow> string \<Rightarrow> string" where
  "mandatory_header firm rid =
     [newline]
     @ spaces 12 @ ''FIRMNAME='' @ firm @ [newline]
     @ spaces 12 @ ''REPLYFILENAME='' @ rid @ ''.dat'' @ [newline]
     @ spaces 12 @ ''COMPRESS=yes'' @ [newline]
     @ spaces 12 @ ''PROGRAMFLAG=oneshot'' @ [newline]
     @ spaces 8"

definition header_option :: "string \<times> string \<Rightarrow> string" where
  "header_option kv = fst kv @ ''='' @ snd kv"

definition make_rid :: "string \<Rightarrow> int \<Rightarrow> string" where
  "make_rid t n = ''bbpy_'' @ t @ ''_'' @ str_int n"

text \<open>\<^verbatim>\<open>_build_header\<close>: the object with its counter advanced, the identifier and the header text.\<close>

definition build_header :: "sftp \<Rightarrow> (string, string) dict \<Rightarrow> sftp \<times> string \<times> string" where
  "build_header self headers =
     (let self' = self\<lparr>request_id := request_id self + 1\<rparr>;
          rid = make_rid (tstr self') (request_id self');
          header = mandatory_header (username self') rid
      in (self', rid, header @ join [newline] (map header_option headers)))"

definition build_fields :: "string list \<Rightarrow> string" where
  "build_fields flds = start_of_fields @ join [newline] flds @ end_of_fields"

definition build_data :: "string list \<Rightarrow> string" where
  "build_data data = start_of_data @ join [newline] data @ end_of_data"

definition build_request ::
  "sftp \<Rightarrow> (string, string) dict \<Rightarrow> string list \<Rightarrow> string list \<Rightarrow> sftp \<times> string \<times> string" where
  "build_request self headers flds data =
     (case build_header self headers of
        (self', rid, hdrs) \<Rightarrow>
          (self', rid,
           concat [opening_stanza, hdrs, build_fields flds, build_data data, closing_stanza]))"

text \<open>A session: one object, and one \<^verbatim>\<open>build_request\<close> call after another on it; the identifiers in the order of the calls.\<close>

fun build_requests ::
  "sftp \<Rightarrow> ((string, string) dict \<times> string list \<times> string list) list \<Rightarrow> string list" where
  "build_requests self [] = []"
| "build_requests self ((headers, flds, data) # calls) =
     (case build_request self headers flds data of
        (self', rid, _) \<Rightarrow> rid # build_requests self' calls)"

section \<open>The polling loop\<close>

text \<open>
  The server is seen through the connection only: what \<^verbatim>\<open>sftp.exists(name)\<close>
  answers, and what \<^verbatim>\<open>decompress(sftp.open(name).read()).decode("utf-8")\<close>
  yields, during a given round of the loop (the first round is round 1). Within a
  round each pending identifier is asked about once, so the two functions describe
  every possible behaviour of the server. Faults of the connection, of the
  decompression and of the decoding are outside the model.
\<close>

record transport =
  file_exists :: "nat \<Rightarrow> string \<Rightarrow> bool"
  file_text :: "nat \<Rightarrow> string \<Rightarrow> string"

text \<open>\<^verbatim>\<open>send_request\<close>: the file written, and the record logged.\<close>

definition send_request :: "string \<Rightarrow> string \<Rightarrow> (string \<times> string) \<times> log_record" where
  "send_request rid req =
     ((rid @ ''.req'', req),
      Info (''Submitted request id: '' @ rid @ '' to Bloomberg sftp server''))"

text \<open>Lines 136 to 139: the pending list, with the files written and the records logged on the way.\<close>

fun submit :: "(string, string) dict \<Rightarrow> string list \<times> (string \<times> string) list \<times> log_record list" where
  "submit [] = ([], [], [])"
| "submit ((rid, req) # rest) =
     (case send_request rid req of
        (written, logged) \<Rightarrow>
          (case submit rest of
             (pending, files, logs) \<Rightarrow> (rid # pending, written # files, logged # logs)))"

definition get_response ::
  "transport \<Rightarrow> nat \<Rightarrow> string \<Rightarrow> (string, string) dict \<Rightarrow> bool \<times> (string, string) dict" where
  "get_response tr n rid responses =
     (let replyname = rid @ ''.dat.gz'' in
      if file_exists tr n replyname
      then (True, dict_set rid (file_text tr n replyname) responses)
      else (False, responses))"

text \<open>Line 143: the comprehension, left to right, each call seeing the responses the calls before it stored.\<close>

fun poll :: "transport \<Rightarrow> nat \<Rightarrow> string list \<Rightarrow> (string, string) dict \<Rightarrow> string list \<times> (string, string) dict" where
  "poll tr n [] responses = ([], responses)"
| "poll tr n (rid # rest) responses =
     (case get_response tr n rid responses of
        (got, responses') \<Rightarrow>
          (case poll tr n rest responses' of
             (pending, responses'') \<Rightarrow> (if got then pending else rid # pending, responses'')))"

text \<open>
  Lines 141 to 144: the loop, after \<open>n\<close> rounds. It need not end, so its result is
  an option: \<open>None\<close> when the loop runs forever.
\<close>

partial_function (option) wait_loop ::
  "transport \<Rightarrow> nat \<Rightarrow> nat \<Rightarrow> string list \<Rightarrow> (string, string) dict
     \<Rightarrow> (error + (string, string) dict) option" where
  "wait_loop tr submitted n pending responses =
     (if length pending > 0 then
        (let polled = poll tr (Suc n) pending responses in
         if length (fst polled) + length (snd polled) = submitted
         then wait_loop tr submitted (Suc n) (fst polled) (snd polled)
         else Some (Inl AssertionError))
      else Some (Inr responses))"

text \<open>\<^verbatim>\<open>Sftp.request\<close>.\<close>

definition request :: "transport \<Rightarrow> (string, string) dict \<Rightarrow> (error + (string, string) dict) option" where
  "request tr requests =
     (case submit requests of
        (pending, files, logs) \<Rightarrow> wait_loop tr (length requests) 0 pending [])"

text \<open>What the loop holds after \<open>k\<close> rounds, while it is still running: the pending list and the responses.\<close>

fun rounds :: "transport \<Rightarrow> nat \<Rightarrow> string list \<times> (string, string) dict \<Rightarrow> string list \<times> (string, string) dict" where
  "rounds tr 0 st = st"
| "rounds tr (Suc k) st = (case rounds tr k st of (pending, responses) \<Rightarrow> poll tr (Suc k) pending responses)"

subsection \<open>Vocabulary for the properties of the builder\<close>





subsection \<open>Vocabulary for the properties of the polling loop\<close>

text \<open>
  The bookkeeping of the loop with respect to the submitted identifiers: no identifier
  is pending twice or stored twice, none is both, and every submitted one is either.
\<close>

definition books :: "string list \<Rightarrow> string list \<times> (string, string) dict \<Rightarrow> bool" where
  "books ids st \<longleftrightarrow>
     distinct (fst st) \<and> distinct (keys (snd st))
     \<and> set (fst st) \<inter> set (keys (snd st)) = {}
     \<and> set (fst st) \<union> set (keys (snd st)) = set ids"

section \<open>Properties of the parser\<close>

subsection \<open>Lines\<close>

lemma split_max_not_Nil: "split_max sep n s \<noteq> []"
  by (induction sep n s rule: split_max.induct) (auto split: list.splits)

lemma iter_lines_append:
  "s = [] \<or> last s = newline \<Longrightarrow> iter_lines (s @ t) = iter_lines s @ iter_lines t"
proof (induction s)
  case Nil
  then show ?case by simp
next
  case (Cons c cs)
  show ?case
  proof (cases "cs = []")
    case True
    with Cons.prems show ?thesis by simp
  next
    case False
    with Cons.prems have "last cs = newline" by simp
    with Cons.IH have ih: "iter_lines (cs @ t) = iter_lines cs @ iter_lines t" by simp
    from False have "iter_lines cs \<noteq> []"
      by (cases cs) (auto split: list.splits)
    with ih show ?thesis by (auto split: list.splits)
  qed
qed

lemma iter_lines_line: "newline \<notin> set body \<Longrightarrow> iter_lines (body @ [newline]) = [body @ [newline]]"
  by (induction body) auto

lemma iter_lines_one: "line \<noteq> [] \<Longrightarrow> newline \<notin> set (butlast line) \<Longrightarrow> iter_lines line = [line]"
  by (induction line) (auto split: if_splits)

lemma iter_lines_next_line:
  assumes "next_line line post"
  shows "iter_lines (line @ post) = line # iter_lines post"
proof (cases "post = []")
  case True
  with assms show ?thesis by (simp add: next_line_def iter_lines_one)
next
  case False
  with assms have "last line = newline" by (simp add: next_line_def)
  with assms show ?thesis
    using iter_lines_append [of line post] by (simp add: next_line_def iter_lines_one)
qed

lemma parse_lines_append:
  "parse_lines b e f st (xs @ ys) =
     (case parse_lines b e f st xs of Inl err \<Rightarrow> Inl err | Inr st' \<Rightarrow> parse_lines b e f st' ys)"
  by (induction xs arbitrary: st) (auto split: sum.splits)





lemma parse_split:
  assumes "at_line_start pre" "next_line line post" "state_after logger pre b e f = Inr st"
  shows "parse_hist_security_response logger (pre @ line @ post) b e f =
     (case process_line b e f st line of
        Inl err \<Rightarrow> Inl err
      | Inr st' \<Rightarrow>
          (case parse_lines b e f st' (iter_lines post) of
             Inl err \<Rightarrow> Inl err
           | Inr st'' \<Rightarrow> Inr (dframes st'', records st'')))"
proof -
  have "iter_lines (pre @ line @ post) = iter_lines pre @ line # iter_lines post"
    using assms(1,2) iter_lines_append [of pre "line @ post"] iter_lines_next_line [of line post]
    by (simp add: at_line_start_def)
  then show ?thesis
    using assms(3)
    by (simp add: parse_hist_security_response_def state_after_def parse_lines_append split: sum.splits)
qed



subsection \<open>Single lines\<close>

lemma strptime_error: "strptime s = Inl err \<Longrightarrow> err = ValueError"
  by (auto simp: strptime_def split: list.splits option.splits if_splits)

lemma py_float_error: "py_float s = Inl err \<Longrightarrow> err = ValueError"
  by (auto simp: py_float_def Let_def split: prod.splits option.splits if_splits)


lemma item_hd: "xs \<noteq> [] \<Longrightarrow> item xs 0 = Inr (hd xs)"
  by (cases xs) (simp_all add: item_def)

text \<open>
  C4. While a block is open (\<open>in_sec\<close>), a line that is not the closing line and whose
  first token differs from the entity of the block fails the assertion of line 37: the
  call ends with \<^verbatim>\<open>AssertionError\<close> and returns no tables, whatever follows the line.
  The lines before it are those the loop has read without an exception.
\<close>

theorem mismatched_entity_is_fatal:
  assumes "at_line_start pre" and "next_line line post"
    and "state_after logger pre begin_date end_date flds = Inr st"
    and "in_sec st"
    and "hd (bits_of line) \<noteq> ''END SECURITY''"
    and "hd (bits_of line) \<noteq> sec st"
  shows "parse_hist_security_response logger (pre @ line @ post) begin_date end_date flds
           = Inl AssertionError"
proof -
  have "process_line begin_date end_date flds st line = Inl AssertionError"
    using assms(4-6) by (simp add: process_line_def data_line_def bits_of_def)
  then show ?thesis
    using parse_split [OF assms(1-3)] by simp
qed





lemma split_max_numeral:
  "split_max sep (numeral k) (c # cs) =
     (if c = sep then [] # split_max sep (pred_numeral k) cs
      else (case split_max sep (numeral k) cs of [] \<Rightarrow> [[c]] | p # ps \<Rightarrow> (c # p) # ps))"
  by (simp add: numeral_eq_Suc)

lemma truthy_sample: "truthy (Finite (3 / 2))"
  by (simp add: truthy_def)

lemma block_opened:
  "state_after [] ''START SECURITY|IBM|PX_LAST|\<newline>'' 737425 737426 [''PX_LAST'']
     = Inr \<lparr>in_sec = True, sec = ''IBM'', col = ''PX_LAST'',
            dframes = [(''IBM'', new_frame 737425 737426 [''PX_LAST''])], records = []\<rparr>"
  by (simp add: state_after_def initial_def process_line_def start_security_def item_def
      pipe_def newline_def split_max_numeral keys_def dict_set_def Let_def)


lemma py_float_zero: "py_float ''0.0'' = Inr (Finite 0)"
  by code_simp

lemma py_float_sample: "py_float ''1.5'' = Inr (Finite (3 / 2))"
  by code_simp


lemma py_int_0: "py_int ''0\<newline>'' = Inr 0"
  by code_simp

theorem mismatched_entity_is_fatal_witness:
  "in_sec \<lparr>in_sec = True, sec = ''IBM'', col = ''PX_LAST'',
            dframes = [(''IBM'', new_frame 737425 737426 [''PX_LAST''])], records = []\<rparr>
   \<and> hd (bits_of ''MSFT|01/01/2020|1.5|\<newline>'') = ''MSFT''
   \<and> parse_hist_security_response []
        (''START SECURITY|IBM|PX_LAST|\<newline>'' @ ''MSFT|01/01/2020|1.5|\<newline>''
           @ ''END SECURITY|IBM|PX_LAST|0\<newline>'')
        737425 737426 [''PX_LAST''] = Inl AssertionError"
  using mismatched_entity_is_fatal [OF _ _ block_opened, of "''MSFT|01/01/2020|1.5|\<newline>''"
      "''END SECURITY|IBM|PX_LAST|0\<newline>''"]
  by (simp add: at_line_start_def next_line_def bits_of_def pipe_def newline_def split_max_numeral Let_def)




subsection \<open>The shape of the tables\<close>

lemma extends_frame_new: "extends_frame b e f (new_frame b e f)"
  by (simp add: extends_frame_def new_frame_def date_range_def)

lemma take_length_eq_le: "take (length ys) xs = ys \<Longrightarrow> length ys \<le> length xs"
proof -
  assume "take (length ys) xs = ys"
  then have "length (take (length ys) xs) = length ys" by simp
  then show ?thesis by simp
qed

lemma extends_frame_loc_set:
  assumes "extends_frame b e f df"
  shows "extends_frame b e f (loc_set day c val df)"
proof -
  let ?r = "date_range b e"
  let ?df = "loc_set day c val df"
  from assms have rows: "take (length ?r) (index df) = ?r" and drows: "distinct (index df)"
    and cols: "take (length f) (columns df) = f"
    and dcols: "distinct (drop (length f) (columns df))"
    and fresh: "\<forall>c \<in> set (drop (length f) (columns df)). c \<notin> set f"
    by (simp_all add: extends_frame_def)
  from rows have lr: "length ?r \<le> length (index df)" by (rule take_length_eq_le)
  from cols have lc: "length f \<le> length (columns df)" by (rule take_length_eq_le)
  from cols have sub: "set f \<subseteq> set (columns df)" by (metis set_take_subset)
  have 1: "take (length ?r) (index ?df) = ?r"
    using rows lr by (simp add: loc_set_def)
  have 2: "distinct (index ?df)"
    using drows by (simp add: loc_set_def)
  have 3: "take (length f) (columns ?df) = f"
    using cols lc by (simp add: loc_set_def)
  have 4: "distinct (drop (length f) (columns ?df))"
  proof (cases "c \<in> set (columns df)")
    case True
    with dcols show ?thesis by (simp add: loc_set_def)
  next
    case False
    then have "c \<notin> set (drop (length f) (columns df))" by (meson in_set_dropD)
    with False dcols lc show ?thesis by (simp add: loc_set_def)
  qed
  have 5: "\<forall>x \<in> set (drop (length f) (columns ?df)). x \<notin> set f"
  proof (cases "c \<in> set (columns df)")
    case True
    with fresh show ?thesis by (simp add: loc_set_def)
  next
    case False
    with sub have "c \<notin> set f" by blast
    with False fresh lc show ?thesis by (simp add: loc_set_def)
  qed
  from 1 2 3 4 5 show ?thesis unfolding extends_frame_def by blast
qed

lemma mutate_frames:
  assumes "\<forall>(k, df) \<in> set d. P df" and "\<And>df. P df \<Longrightarrow> P (g df)"
  shows "\<forall>(k, df) \<in> set (mutate k0 g d). P df"
  using assms by (auto simp: mutate_def)

lemma dict_set_frames:
  assumes "\<forall>(k, df) \<in> set d. P df" and "P v"
  shows "\<forall>(k, df) \<in> set (dict_set k0 v d). P df"
  using assms unfolding dict_set_def by (induction d) auto

lemma end_security_frames: "end_security st bits = Inr st' \<Longrightarrow> dframes st' = dframes st"
  by (auto simp: end_security_def split: sum.splits)

lemma data_line_frames:
  assumes "\<forall>(k, df) \<in> set (dframes st). extends_frame b e f df"
    and "data_line st bits = Inr st'"
  shows "\<forall>(k, df) \<in> set (dframes st'). extends_frame b e f df"
proof -
  from assms(2) consider "dframes st' = dframes st"
    | day val where "dframes st' = mutate (sec st) (loc_set day (col st) val) (dframes st)"
    by (auto simp: data_line_def split: sum.splits if_splits)
  then show ?thesis
  proof cases
    case 1
    with assms(1) show ?thesis by simp
  next
    case 2
    with mutate_frames [OF assms(1), of "loc_set day (col st) val" "sec st"] extends_frame_loc_set
    show ?thesis by simp
  qed
qed

lemma start_security_frames:
  assumes "\<forall>(k, df) \<in> set (dframes st). extends_frame b e f df"
    and "start_security b e f st bits = Inr st'"
  shows "\<forall>(k, df) \<in> set (dframes st'). extends_frame b e f df"
proof -
  from assms(2) consider "dframes st' = dframes st"
    | s where "dframes st' = dict_set s (new_frame b e f) (dframes st)"
    by (auto simp: start_security_def split: sum.splits if_splits)
  then show ?thesis
  proof cases
    case 1
    with assms(1) show ?thesis by simp
  next
    case 2
    with dict_set_frames [OF assms(1) extends_frame_new, of s] show ?thesis by simp
  qed
qed

lemma process_line_cases:
  assumes "process_line b e f st line = Inr st'"
  shows "end_security st (split_max pipe 4 line) = Inr st'
       \<or> data_line st (split_max pipe 4 line) = Inr st'
       \<or> start_security b e f st (split_max pipe 4 line) = Inr st'
       \<or> st = st'"
proof (cases "in_sec st")
  case True
  with assms show ?thesis
    by (cases "hd (split_max pipe 4 line) = ''END SECURITY''") (simp_all add: process_line_def)
next
  case False
  with assms show ?thesis
    by (cases "hd (split_max pipe 4 line) = ''START SECURITY''") (simp_all add: process_line_def)
qed

lemma process_line_frames:
  assumes "\<forall>(k, df) \<in> set (dframes st). extends_frame b e f df"
    and "process_line b e f st line = Inr st'"
  shows "\<forall>(k, df) \<in> set (dframes st'). extends_frame b e f df"
proof -
  from process_line_cases [OF assms(2)]
  consider "end_security st (split_max pipe 4 line) = Inr st'"
    | "data_line st (split_max pipe 4 line) = Inr st'"
    | "start_security b e f st (split_max pipe 4 line) = Inr st'" | "st = st'"
    by blast
  then show ?thesis
  proof cases
    case 1
    then have "dframes st' = dframes st" by (rule end_security_frames)
    with assms(1) show ?thesis by simp
  next
    case 2
    with assms(1) show ?thesis by (rule data_line_frames)
  next
    case 3
    with assms(1) show ?thesis by (rule start_security_frames)
  next
    case 4
    with assms(1) show ?thesis by simp
  qed
qed

lemma parse_lines_frames:
  assumes "\<forall>(k, df) \<in> set (dframes st). extends_frame b e f df"
    and "parse_lines b e f st ls = Inr st'"
  shows "\<forall>(k, df) \<in> set (dframes st'). extends_frame b e f df"
  using assms
proof (induction ls arbitrary: st)
  case Nil
  then show ?case by simp
next
  case (Cons l ls)
  then obtain s where s: "process_line b e f st l = Inr s" and r: "parse_lines b e f s ls = Inr st'"
    by (auto split: sum.splits)
  from process_line_frames [OF Cons.prems(1) s] Cons.IH r show ?case by blast
qed

lemma count_list_distinct: "distinct xs \<Longrightarrow> x \<in> set xs \<Longrightarrow> count_list xs x = 1"
  by (induction xs) (auto simp: count_list_0_iff)

text \<open>
  C3, as the code has it. A table is created with one row for each day from
  \<open>begin_date\<close> to \<open>end_date\<close>, one column for each requested field, and every cell
  absent. Every table that a call returns still has those rows, each day of the range
  exactly once and in front of all others, and those columns in front of all others. It
  can have more: \<^verbatim>\<open>dframe.loc[day, col] = val\<close> appends a row for a day outside the
  range and a column for a label outside the requested fields, so the further rows are
  days outside the range and the further columns are not requested fields.
\<close>

theorem table_shape:
  assumes "parse_hist_security_response logger response begin_date end_date flds = Inr (tabs, logged)"
    and "(k, df) \<in> set tabs"
  shows "index (new_frame begin_date end_date flds) = [begin_date .. end_date]
       \<and> columns (new_frame begin_date end_date flds) = flds
       \<and> (\<forall>cell. cells (new_frame begin_date end_date flds) cell = None)
       \<and> extends_frame begin_date end_date flds df
       \<and> (\<forall>day. begin_date \<le> day \<and> day \<le> end_date \<longrightarrow> count_list (index df) day = 1)
       \<and> (\<forall>day \<in> set (drop (length (date_range begin_date end_date)) (index df)).
             day < begin_date \<or> end_date < day)
       \<and> (\<forall>c \<in> set flds. c \<in> set (columns df))"
proof -
  from assms(1) obtain st where
    st: "parse_lines begin_date end_date flds (initial logger) (iter_lines response) = Inr st"
    and tabs: "tabs = dframes st"
    by (auto simp: parse_hist_security_response_def split: sum.splits)
  have "\<forall>(k, df) \<in> set (dframes (initial logger)). extends_frame begin_date end_date flds df"
    by (simp add: initial_def)
  from parse_lines_frames [OF this st] assms(2) tabs
  have ext: "extends_frame begin_date end_date flds df" by auto
  have rows: "count_list (index df) day = 1" if "begin_date \<le> day" "day \<le> end_date" for day
  proof -
    from that have "day \<in> set (date_range begin_date end_date)" by (simp add: date_range_def)
    with ext have "day \<in> set (index df)"
      unfolding extends_frame_def by (metis in_set_takeD)
    with ext show ?thesis by (simp add: extends_frame_def count_list_distinct)
  qed
  have colsub: "c \<in> set (columns df)" if "c \<in> set flds" for c
    using that ext unfolding extends_frame_def by (metis in_set_takeD)
  have outside: "day < begin_date \<or> end_date < day"
    if "day \<in> set (drop (length (date_range begin_date end_date)) (index df))" for day
  proof -
    let ?n = "length (date_range begin_date end_date)"
    from ext have "distinct (index df)" by (simp add: extends_frame_def)
    then have "set (take ?n (index df)) \<inter> set (drop ?n (index df)) = {}"
      by (rule set_take_disj_set_drop_if_distinct) simp
    with that have "day \<notin> set (take ?n (index df))" by blast
    with ext have "day \<notin> set (date_range begin_date end_date)"
      by (simp add: extends_frame_def)
    then show ?thesis by (auto simp: date_range_def)
  qed
  from ext rows outside colsub show ?thesis
    by (simp add: new_frame_def date_range_def)
qed


lemma strptime_sample: "strptime ''05/01/2020'' = Inr 737429"
  by code_simp

lemma date_range_sample: "date_range 737425 737426 = [737425, 737426]"
  by (simp add: date_range_def upto.simps)

lemma out_of_range_parse:
  "parse_hist_security_response []
     (''START SECURITY|IBM|PX_LAST|\<newline>'' @ ''IBM|05/01/2020|1.5|\<newline>''
        @ ''END SECURITY|IBM|PX_LAST|0\<newline>'')
     737425 737426 [''PX_LAST'']
   = Inr ([(''IBM'', loc_set 737429 ''PX_LAST'' (Finite (3 / 2)) (new_frame 737425 737426 [''PX_LAST'']))], [])"
proof -
  have "process_line 737425 737426 [''PX_LAST'']
          \<lparr>in_sec = True, sec = ''IBM'', col = ''PX_LAST'',
             dframes = [(''IBM'', new_frame 737425 737426 [''PX_LAST''])], records = []\<rparr>
          ''IBM|05/01/2020|1.5|\<newline>''
        = Inr \<lparr>in_sec = True, sec = ''IBM'', col = ''PX_LAST'',
             dframes = [(''IBM'', loc_set 737429 ''PX_LAST'' (Finite (3 / 2))
                                   (new_frame 737425 737426 [''PX_LAST'']))], records = []\<rparr>"
    by (simp add: process_line_def data_line_def item_def pipe_def split_max_numeral Let_def
        py_float_sample truthy_sample strptime_sample mutate_def)
  moreover have "process_line 737425 737426 [''PX_LAST'']
          \<lparr>in_sec = True, sec = ''IBM'', col = ''PX_LAST'',
             dframes = [(''IBM'', loc_set 737429 ''PX_LAST'' (Finite (3 / 2))
                                   (new_frame 737425 737426 [''PX_LAST'']))], records = []\<rparr>
          ''END SECURITY|IBM|PX_LAST|0\<newline>''
        = Inr \<lparr>in_sec = False, sec = ''IBM'', col = ''PX_LAST'',
             dframes = [(''IBM'', loc_set 737429 ''PX_LAST'' (Finite (3 / 2))
                                   (new_frame 737425 737426 [''PX_LAST'']))], records = []\<rparr>"
    by (simp add: process_line_def end_security_def item_def pipe_def split_max_numeral Let_def
        py_int_0)
  ultimately show ?thesis
    using parse_split [OF _ _ block_opened, of "''IBM|05/01/2020|1.5|\<newline>''"
        "''END SECURITY|IBM|PX_LAST|0\<newline>''"]
    by (simp add: at_line_start_def next_line_def newline_def)
qed

text \<open>
  The rows of a returned table do depend on the dates in the response: for the range of
  1 and 2 January 2020, a data line dated 5 January 2020 gives the table of its entity a
  third row.
\<close>

theorem table_rows_counterexample:
  "rows_of (parse_hist_security_response []
     (''START SECURITY|IBM|PX_LAST|\<newline>'' @ ''IBM|05/01/2020|1.5|\<newline>''
        @ ''END SECURITY|IBM|PX_LAST|0\<newline>'')
     737425 737426 [''PX_LAST'']) ''IBM'' = Some [737425, 737426, 737429]
   \<and> date_range 737425 737426 = [737425, 737426]"
  using out_of_range_parse
  by (simp add: rows_of_def dict_get_def loc_set_def new_frame_def date_range_sample)

theorem table_shape_witness:
  "extends_frame 737425 737426 [''PX_LAST'']
     (loc_set 737429 ''PX_LAST'' (Finite (3 / 2)) (new_frame 737425 737426 [''PX_LAST'']))
   \<and> count_list (index (loc_set 737429 ''PX_LAST'' (Finite (3 / 2))
                          (new_frame 737425 737426 [''PX_LAST'']))) 737426 = 1
   \<and> ''PX_LAST'' \<in> set (columns (loc_set 737429 ''PX_LAST'' (Finite (3 / 2))
                          (new_frame 737425 737426 [''PX_LAST''])))"
  using table_shape [OF out_of_range_parse, of "''IBM''"
      "loc_set 737429 ''PX_LAST'' (Finite (3 / 2)) (new_frame 737425 737426 [''PX_LAST''])"]
  by simp

subsection \<open>The table behind the variable dframe\<close>

text \<open>
  While a block is open, \<^verbatim>\<open>dframes\<close> has exactly one table under the entity of
  the block; that table is the object the variable \<^verbatim>\<open>dframe\<close> names, which is what
  \<open>mutate\<close> in \<open>data_line\<close> relies on.
\<close>

lemma keys_mutate: "keys (mutate k g d) = keys d"
  by (induction d) (auto simp: mutate_def keys_def)

lemma keys_dict_set: "set (keys (dict_set k v d)) = insert k (set (keys d))"
  unfolding dict_set_def keys_def by (induction d) auto

lemma distinct_dict_set: "distinct (keys d) \<Longrightarrow> distinct (keys (dict_set k v d))"
  unfolding dict_set_def keys_def by (rule distinct_update)

lemma process_line_block:
  assumes "distinct (keys (dframes st))"
    and "in_sec st \<longrightarrow> sec st \<in> set (keys (dframes st))"
    and "process_line b e f st line = Inr st'"
  shows "distinct (keys (dframes st')) \<and> (in_sec st' \<longrightarrow> sec st' \<in> set (keys (dframes st')))"
proof -
  from process_line_cases [OF assms(3)]
  consider "end_security st (split_max pipe 4 line) = Inr st'"
    | "data_line st (split_max pipe 4 line) = Inr st'" "in_sec st"
    | "start_security b e f st (split_max pipe 4 line) = Inr st'" | "st = st'"
    using assms(3) by (cases "in_sec st") (auto simp: process_line_def Let_def split: if_splits)
  then show ?thesis
  proof cases
    case 1
    with assms(1) show ?thesis
      by (auto simp: end_security_def split: sum.splits)
  next
    case 2
    with assms(1,2) show ?thesis
      by (auto simp: data_line_def keys_mutate split: sum.splits if_splits)
  next
    case 3
    with assms(1) show ?thesis
      by (auto simp: start_security_def keys_dict_set distinct_dict_set split: sum.splits if_splits)
  next
    case 4
    with assms(1,2) show ?thesis by simp
  qed
qed

lemma parse_lines_block:
  assumes "distinct (keys (dframes st))"
    and "in_sec st \<longrightarrow> sec st \<in> set (keys (dframes st))"
    and "parse_lines b e f st ls = Inr st'"
  shows "distinct (keys (dframes st')) \<and> (in_sec st' \<longrightarrow> sec st' \<in> set (keys (dframes st')))"
  using assms
proof (induction ls arbitrary: st)
  case Nil
  then show ?case by simp
next
  case (Cons l ls)
  then obtain s where s: "process_line b e f st l = Inr s" and r: "parse_lines b e f s ls = Inr st'"
    by (auto split: sum.splits)
  from process_line_block [OF Cons.prems(1,2) s] Cons.IH [OF _ _ r] show ?case by blast
qed

lemma open_block_has_table:
  assumes "state_after logger pre b e f = Inr st" and "in_sec st"
  shows "distinct (keys (dframes st)) \<and> sec st \<in> set (keys (dframes st))"
proof -
  have "distinct (keys (dframes (initial logger)))"
    and "in_sec (initial logger) \<longrightarrow> sec (initial logger) \<in> set (keys (dframes (initial logger)))"
    by (simp_all add: initial_def keys_def)
  from parse_lines_block [OF this] assms show ?thesis
    by (simp add: state_after_def)
qed

section \<open>Properties of the request builder\<close>

subsection \<open>Identifiers\<close>

lemma digit_char_inj: "d < 10 \<Longrightarrow> d' < 10 \<Longrightarrow> digit_char d = digit_char d' \<Longrightarrow> d = d'"
proof -
  assume a: "d < 10" "d' < 10" "digit_char d = digit_char d'"
  have "distinct ''0123456789''" by simp
  with a show ?thesis
    unfolding digit_char_def by (simp add: nth_eq_iff_index_eq)
qed

lemma digit_char_not_minus: "d < 10 \<Longrightarrow> digit_char d \<noteq> CHR ''-''"
proof -
  assume "d < 10"
  then have "digit_char d \<in> set ''0123456789''"
    unfolding digit_char_def by (intro nth_mem) simp
  then show ?thesis by auto
qed

lemma str_nat_small: "n < 10 \<Longrightarrow> str_nat n = [digit_char n]"
  by (subst str_nat.simps) simp

lemma str_nat_big: "\<not> n < 10 \<Longrightarrow> str_nat n = str_nat (n div 10) @ [digit_char (n mod 10)]"
  by (subst str_nat.simps) simp

lemma str_nat_not_Nil: "str_nat n \<noteq> []"
  by (cases "n < 10") (simp_all add: str_nat_small str_nat_big)

lemma str_nat_inj: "str_nat n = str_nat m \<Longrightarrow> n = m"
proof (induction n arbitrary: m rule: str_nat.induct)
  case (1 n)
  show ?case
  proof (cases "n < 10")
    case small: True
    show ?thesis
    proof (cases "m < 10")
      case True
      with small "1.prems" show ?thesis
        by (simp add: str_nat_small digit_char_inj)
    next
      case False
      with small "1.prems" str_nat_not_Nil [of "m div 10"] show ?thesis
        by (simp add: str_nat_small str_nat_big)
    qed
  next
    case big: False
    show ?thesis
    proof (cases "m < 10")
      case True
      with big "1.prems" str_nat_not_Nil [of "n div 10"] show ?thesis
        by (simp add: str_nat_small str_nat_big)
    next
      case False
      with big "1.prems" have parts: "str_nat (n div 10) = str_nat (m div 10)"
        and last: "digit_char (n mod 10) = digit_char (m mod 10)"
        by (simp_all add: str_nat_big)
      from "1.IH" [OF big parts] have "n div 10 = m div 10" .
      moreover from last have "n mod 10 = m mod 10" by (simp add: digit_char_inj)
      ultimately show ?thesis by (metis div_mult_mod_eq)
    qed
  qed
qed

lemma str_nat_no_minus: "hd (str_nat n) \<noteq> CHR ''-''"
proof (induction n rule: str_nat.induct)
  case (1 n)
  show ?case
  proof (cases "n < 10")
    case True
    then show ?thesis by (simp add: str_nat_small digit_char_not_minus)
  next
    case False
    with "1.IH" str_nat_not_Nil [of "n div 10"] show ?thesis
      by (simp add: str_nat_big)
  qed
qed

lemma str_int_inj: "str_int i = str_int j \<Longrightarrow> i = j"
proof -
  assume eq: "str_int i = str_int j"
  consider "i < 0" "j < 0" | "i < 0" "\<not> j < 0" | "\<not> i < 0" "j < 0" | "\<not> i < 0" "\<not> j < 0" by blast
  then show ?thesis
  proof cases
    case 1
    with eq have "nat (- i) = nat (- j)" by (simp add: str_int_def str_nat_inj)
    with 1 show ?thesis by simp
  next
    case 2
    with eq have "CHR ''-'' # str_nat (nat (- i)) = str_nat (nat j)" by (simp add: str_int_def)
    with str_nat_no_minus [of "nat j"] show ?thesis by (metis list.sel(1))
  next
    case 3
    with eq have "str_nat (nat i) = CHR ''-'' # str_nat (nat (- j))" by (simp add: str_int_def)
    with str_nat_no_minus [of "nat i"] show ?thesis by (metis list.sel(1))
  next
    case 4
    with eq have "nat i = nat j" by (simp add: str_int_def str_nat_inj)
    with 4 show ?thesis by simp
  qed
qed

lemma make_rid_inj: "make_rid t i = make_rid t j \<Longrightarrow> i = j"
  by (simp add: make_rid_def str_int_inj)

lemma build_requests_eq:
  "build_requests self calls =
     map (\<lambda>i. make_rid (tstr self) (request_id self + 1 + int i)) [0 ..< length calls]"
proof (induction calls arbitrary: self)
  case Nil
  then show ?case by simp
next
  case (Cons c calls)
  obtain headers flds data where c: "c = (headers, flds, data)" by (cases c)
  let ?self = "self\<lparr>request_id := request_id self + 1\<rparr>"
  have step: "build_requests self (c # calls) =
      make_rid (tstr self) (request_id self + 1) # build_requests ?self calls"
    by (simp add: c build_request_def build_header_def Let_def)
  have "map (\<lambda>i. make_rid (tstr self) (request_id self + 1 + int i)) [0 ..< length (c # calls)]
      = make_rid (tstr self) (request_id self + 1)
        # map (\<lambda>i. make_rid (tstr self) (request_id self + 1 + int (Suc i))) [0 ..< length calls]"
    by (simp add: upt_conv_Cons map_Suc_upt [symmetric] del: upt_Suc)
  with step Cons.IH [of ?self] show ?case by (simp add: add.assoc)
qed

text \<open>
  C7. On one object, any number of \<^verbatim>\<open>build_request\<close> calls one after another, with
  whatever arguments, return as many identifiers, no two of them equal. The \<open>i\<close>-th
  (from zero) is \<^verbatim>\<open>bbpy_\<close>, the time text of the object, an underscore and the decimal
  text of the counter, which is \<open>i + 1\<close> above the counter the object started with (zero
  after \<^verbatim>\<open>__init__\<close>). Two identifiers of consecutive calls are one stem followed by
  the texts of two consecutive counters, and these texts differ.
\<close>

theorem identifiers_distinct:
  "length (build_requests self calls) = length calls
   \<and> distinct (build_requests self calls)
   \<and> (\<forall>i < length calls.
         build_requests self calls ! i
           = ''bbpy_'' @ tstr self @ ''_'' @ str_int (request_id self + 1 + int i))
   \<and> (\<forall>i. Suc i < length calls \<longrightarrow>
         (\<exists>stem c. build_requests self calls ! i = stem @ str_int c
                 \<and> build_requests self calls ! Suc i = stem @ str_int (c + 1)
                 \<and> str_int c \<noteq> str_int (c + 1)))"
proof -
  let ?f = "\<lambda>i. make_rid (tstr self) (request_id self + 1 + int i)"
  have eq: "build_requests self calls = map ?f [0 ..< length calls]"
    by (rule build_requests_eq)
  have "inj_on ?f (set [0 ..< length calls])"
    by (rule inj_onI) (auto dest: make_rid_inj)
  then have d: "distinct (build_requests self calls)"
    by (simp add: eq distinct_map)
  have form: "build_requests self calls ! i
           = ''bbpy_'' @ tstr self @ ''_'' @ str_int (request_id self + 1 + int i)"
    if "i < length calls" for i
    using that by (simp add: eq make_rid_def)
  have step: "\<exists>stem c. build_requests self calls ! i = stem @ str_int c
                 \<and> build_requests self calls ! Suc i = stem @ str_int (c + 1)
                 \<and> str_int c \<noteq> str_int (c + 1)"
    if "Suc i < length calls" for i
  proof -
    let ?c = "request_id self + 1 + int i"
    from that have "build_requests self calls ! i = (''bbpy_'' @ tstr self @ ''_'') @ str_int ?c"
      by (simp add: form)
    moreover from that have "build_requests self calls ! Suc i = (''bbpy_'' @ tstr self @ ''_'') @ str_int (?c + 1)"
      by (simp add: form add.assoc)
    moreover have "str_int ?c \<noteq> str_int (?c + 1)"
      using str_int_inj [of ?c "?c + 1"] by auto
    ultimately show ?thesis by blast
  qed
  from d form step show ?thesis by (simp add: eq)
qed


theorem identifiers_distinct_witness:
  "distinct (build_requests (init ''20200101120000'' ''host'' ''firm'' ''secret'')
       [([], [''PX_LAST''], [''IBM Equity'']), ([], [''PX_LAST''], [''IBM Equity''])])
   \<and> build_requests (init ''20200101120000'' ''host'' ''firm'' ''secret'')
       [([], [''PX_LAST''], [''IBM Equity'']), ([], [''PX_LAST''], [''IBM Equity''])] ! 0
     = ''bbpy_20200101120000_1''
   \<and> build_requests (init ''20200101120000'' ''host'' ''firm'' ''secret'')
       [([], [''PX_LAST''], [''IBM Equity'']), ([], [''PX_LAST''], [''IBM Equity''])] ! 1
     = ''bbpy_20200101120000_2''"
proof -
  let ?S = "init ''20200101120000'' ''host'' ''firm'' ''secret''"
  let ?C = "[([], [''PX_LAST''], [''IBM Equity'']), ([], [''PX_LAST''], [''IBM Equity''])]
              :: ((string, string) dict \<times> string list \<times> string list) list"
  note inst = identifiers_distinct [of ?S ?C]
  from inst have d: "distinct (build_requests ?S ?C)" by blast
  from inst have f: "\<forall>i < length ?C. build_requests ?S ?C ! i
           = ''bbpy_'' @ tstr ?S @ ''_'' @ str_int (request_id ?S + 1 + int i)" by blast
  have s1: "str_int 1 = ''1''" and s2: "str_int 2 = ''2''"
    by (simp_all add: str_int_def str_nat.simps digit_char_def)
  from f have "build_requests ?S ?C ! 0 = ''bbpy_20200101120000_1''"
    by (simp add: init_def s1)
  moreover from f have "build_requests ?S ?C ! 1 = ''bbpy_20200101120000_2''"
    by (simp add: init_def s2)
  ultimately show ?thesis using d by blast
qed

subsection \<open>The text of a request\<close>


lemma split_all_sep: "split_all c (c # rest) = [] # split_all c rest"
  by simp


















section \<open>Properties of the polling loop\<close>

subsection \<open>One round\<close>

lemma submit_pending: "fst (submit requests) = keys requests"
  by (induction requests rule: submit.induct) (auto simp: keys_def send_request_def split: prod.splits)

lemma dict_set_fresh: "k \<notin> set (keys d) \<Longrightarrow> dict_set k v d = d @ [(k, v)]"
  unfolding dict_set_def keys_def by (induction d) auto

lemma poll_eq:
  assumes "distinct pending" and "set pending \<inter> set (keys responses) = {}"
  shows "poll tr n pending responses =
           (filter (\<lambda>rid. \<not> file_exists tr n (rid @ ''.dat.gz'')) pending,
            responses @ map (\<lambda>rid. (rid, file_text tr n (rid @ ''.dat.gz'')))
                          (filter (\<lambda>rid. file_exists tr n (rid @ ''.dat.gz'')) pending))"
  using assms
proof (induction pending arbitrary: responses)
  case Nil
  then show ?case by simp
next
  case (Cons rid rest)
  show ?case
  proof (cases "file_exists tr n (rid @ ''.dat.gz'')")
    case True
    let ?r = "responses @ [(rid, file_text tr n (rid @ ''.dat.gz''))]"
    from Cons.prems have fresh: "rid \<notin> set (keys responses)" by auto
    from Cons.prems have "distinct rest" and "set rest \<inter> set (keys ?r) = {}"
      by (auto simp: keys_def)
    from Cons.IH [OF this] True fresh show ?thesis
      by (simp add: get_response_def dict_set_fresh)
  next
    case False
    from Cons.prems have "distinct rest" and "set rest \<inter> set (keys responses) = {}"
      by auto
    from Cons.IH [OF this] False show ?thesis
      by (simp add: get_response_def)
  qed
qed


lemma poll_count:
  assumes "distinct pending" and "set pending \<inter> set (keys responses) = {}"
  shows "length (fst (poll tr n pending responses)) + length (snd (poll tr n pending responses))
           = length pending + length responses"
  using sum_length_filter_compl [of "\<lambda>rid. file_exists tr n (rid @ ''.dat.gz'')" pending]
  by (simp add: poll_eq [OF assms])

lemma poll_books:
  assumes "books ids (pending, responses)"
  shows "books ids (poll tr n pending responses)"
proof -
  from assms have d: "distinct pending" and i: "set pending \<inter> set (keys responses) = {}"
    by (simp_all add: books_def)
  have k: "keys (snd (poll tr n pending responses))
      = keys responses @ filter (\<lambda>rid. file_exists tr n (rid @ ''.dat.gz'')) pending"
    by (simp add: poll_eq [OF d i] keys_def comp_def)
  have p: "fst (poll tr n pending responses) = filter (\<lambda>rid. \<not> file_exists tr n (rid @ ''.dat.gz'')) pending"
    by (simp add: poll_eq [OF d i])
  from assms show ?thesis
    unfolding books_def k p by auto
qed

lemma books_count:
  assumes "books ids st" and "distinct ids"
  shows "length (fst st) + length (snd st) = length ids"
proof -
  from assms(1) have "distinct (fst st @ keys (snd st))" and "set (fst st @ keys (snd st)) = set ids"
    by (auto simp: books_def)
  with assms(2) have "length (fst st @ keys (snd st)) = length ids"
    by (metis distinct_card)
  then show ?thesis by (simp add: keys_def)
qed

lemma books_start: "distinct ids \<Longrightarrow> books ids (ids, [])"
  by (simp add: books_def keys_def)

lemma rounds_books: "books ids st \<Longrightarrow> books ids (rounds tr k st)"
proof (induction k)
  case 0
  then show ?case by simp
next
  case (Suc k)
  then have "books ids (rounds tr k st)" by simp
  then have "books ids (fst (rounds tr k st), snd (rounds tr k st))" by simp
  from poll_books [OF this] show ?case by (simp add: case_prod_unfold)
qed

lemma wait_loop_step:
  assumes "books ids (pending, responses)" and "distinct ids" and "pending \<noteq> []"
  shows "wait_loop tr (length ids) n pending responses =
           wait_loop tr (length ids) (Suc n) (fst (poll tr (Suc n) pending responses))
             (snd (poll tr (Suc n) pending responses))"
proof -
  from poll_books [OF assms(1)] have "books ids (poll tr (Suc n) pending responses)" .
  from books_count [OF this assms(2)] assms(3) show ?thesis
    by (subst wait_loop.simps) (simp add: Let_def)
qed

lemma wait_loop_rounds:
  assumes "books ids st" and "distinct ids" and "\<forall>j < k. fst (rounds tr j st) \<noteq> []"
  shows "wait_loop tr (length ids) 0 (fst st) (snd st) =
           wait_loop tr (length ids) k (fst (rounds tr k st)) (snd (rounds tr k st))"
  using assms(3)
proof (induction k)
  case 0
  then show ?case by simp
next
  case (Suc k)
  then have ih: "wait_loop tr (length ids) 0 (fst st) (snd st) =
           wait_loop tr (length ids) k (fst (rounds tr k st)) (snd (rounds tr k st))"
    and ne: "fst (rounds tr k st) \<noteq> []"
    by simp_all
  from rounds_books [OF assms(1)] have "books ids (fst (rounds tr k st), snd (rounds tr k st))"
    by simp
  from wait_loop_step [OF this assms(2) ne] ih show ?case
    by (simp add: case_prod_unfold)
qed

lemma wait_loop_no_assertion_all:
  assumes run: "wait_loop tr submitted n pending responses = Some y"
  shows "\<forall>ids. books ids (pending, responses) \<longrightarrow> distinct ids \<longrightarrow> submitted = length ids
           \<longrightarrow> y \<noteq> Inl AssertionError"
proof (rule wait_loop.raw_induct
    [where P = "\<lambda>tr submitted n pending responses y.
        \<forall>ids. books ids (pending, responses) \<longrightarrow> distinct ids \<longrightarrow> submitted = length ids
           \<longrightarrow> y \<noteq> Inl AssertionError", OF _ run], goal_cases)
  case (1 loop tr submitted n pending responses y)
  show ?case
  proof (intro allI impI)
    fix ids
    assume b: "books ids (pending, responses)" and d: "distinct ids" and s: "submitted = length ids"
    show "y \<noteq> Inl AssertionError"
    proof (cases "pending = []")
      case True
      with 1(2) show ?thesis by auto
    next
      case False
      let ?p = "poll tr (Suc n) pending responses"
      from poll_books [OF b] have b': "books ids (fst ?p, snd ?p)" by simp
      from books_count [OF this d] s
      have "length (fst ?p) + length (snd ?p) = submitted" by simp
      with False 1(2) have "loop tr submitted (Suc n) (fst ?p) (snd ?p) = Some y"
        by (simp add: Let_def)
      from 1(1) [OF this] b' d s show ?thesis by blast
    qed
  qed
qed

lemma wait_loop_no_assertion:
  assumes "wait_loop tr submitted n pending responses = Some y"
    and "books ids (pending, responses)" and "distinct ids" and "submitted = length ids"
  shows "y \<noteq> Inl AssertionError"
  using wait_loop_no_assertion_all [OF assms(1)] assms(2-4) by blast

text \<open>
  C1. For any mapping of requests (its identifiers distinct, as the keys of a
  \<^verbatim>\<open>dict\<close> are) and any behaviour of the server, after every round of the loop each
  submitted identifier is either pending or has a stored response, never both and never
  twice, so the number of responses plus the number of pending identifiers is the
  number of requests. As long as identifiers were pending in all rounds before, the loop
  is in exactly that state after \<open>k\<close> rounds; and the assertion of line 144 never
  fails.
\<close>

theorem count_invariant:
  assumes "distinct (keys requests)"
  shows "(\<forall>k. books (keys requests) (rounds tr k (fst (submit requests), []))
            \<and> length (snd (rounds tr k (fst (submit requests), [])))
              + length (fst (rounds tr k (fst (submit requests), [])))
              = length requests
            \<and> ((\<forall>j < k. fst (rounds tr j (fst (submit requests), [])) \<noteq> []) \<longrightarrow>
                 request tr requests =
                   wait_loop tr (length requests) k
                     (fst (rounds tr k (fst (submit requests), [])))
                     (snd (rounds tr k (fst (submit requests), [])))))
       \<and> request tr requests \<noteq> Some (Inl AssertionError)"
proof -
  let ?ids = "keys requests"
  let ?st = "(fst (submit requests), []) :: string list \<times> (string, string) dict"
  have len: "length ?ids = length requests" by (simp add: keys_def)
  have start: "books ?ids ?st"
    using books_start [OF assms] by (simp add: submit_pending)
  have req: "request tr requests = wait_loop tr (length ?ids) 0 (fst ?st) (snd ?st)"
    by (simp add: request_def len case_prod_unfold)
  have inv: "books ?ids (rounds tr k ?st)" for k
    by (rule rounds_books [OF start])
  have cnt: "length (snd (rounds tr k ?st)) + length (fst (rounds tr k ?st)) = length requests" for k
    using books_count [OF inv assms, of k] len by simp
  have run: "request tr requests =
      wait_loop tr (length requests) k (fst (rounds tr k ?st)) (snd (rounds tr k ?st))"
    if "\<forall>j < k. fst (rounds tr j ?st) \<noteq> []" for k
    using wait_loop_rounds [OF start assms that] req len by simp
  have "request tr requests \<noteq> Some (Inl AssertionError)"
  proof
    assume "request tr requests = Some (Inl AssertionError)"
    with req have "wait_loop tr (length ?ids) 0 (fst ?st) (snd ?st) = Some (Inl AssertionError)"
      by simp
    from wait_loop_no_assertion [OF this _ assms refl] start show False by simp
  qed
  with inv cnt run show ?thesis by blast
qed


theorem count_invariant_witness:
  "distinct (keys [(''a'', ''ra''), (''b'', ''rb''), (''c'', ''rc'')])
   \<and> length (snd (rounds
         \<lparr>file_exists = (\<lambda>n name. if name = ''a.dat.gz'' then 1 \<le> n else 2 \<le> n),
          file_text = (\<lambda>n name. ''reply in '' @ name)\<rparr> 1
         (fst (submit [(''a'', ''ra''), (''b'', ''rb''), (''c'', ''rc'')]), [])))
     + length (fst (rounds
         \<lparr>file_exists = (\<lambda>n name. if name = ''a.dat.gz'' then 1 \<le> n else 2 \<le> n),
          file_text = (\<lambda>n name. ''reply in '' @ name)\<rparr> 1
         (fst (submit [(''a'', ''ra''), (''b'', ''rb''), (''c'', ''rc'')]), [])))
     = length [(''a'', ''ra''), (''b'', ''rb''), (''c'', ''rc'')]
   \<and> request
         \<lparr>file_exists = (\<lambda>n name. if name = ''a.dat.gz'' then 1 \<le> n else 2 \<le> n),
          file_text = (\<lambda>n name. ''reply in '' @ name)\<rparr>
         [(''a'', ''ra''), (''b'', ''rb''), (''c'', ''rc'')] \<noteq> Some (Inl AssertionError)"
proof -
  have d: "distinct (keys [(''a'', ''ra''), (''b'', ''rb''), (''c'', ''rc'')])"
    by (simp add: keys_def)
  from count_invariant [OF d] d show ?thesis by blast
qed

subsection \<open>The whole loop\<close>

lemma bounded_rounds:
  "\<forall>x \<in> set xs. \<exists>m. P x m \<Longrightarrow> \<exists>N. \<forall>x \<in> set xs. \<exists>m \<le> N. P x (m :: nat)"
proof (induction xs)
  case Nil
  then show ?case by simp
next
  case (Cons x xs)
  then obtain N where N: "\<forall>x \<in> set xs. \<exists>m \<le> N. P x m" by auto
  from Cons.prems obtain m where m: "P x m" by auto
  have "\<forall>y \<in> set (x # xs). \<exists>k \<le> max N m. P y k"
  proof
    fix y
    assume "y \<in> set (x # xs)"
    then consider "y = x" | "y \<in> set xs" by auto
    then show "\<exists>k \<le> max N m. P y k"
    proof cases
      case 1
      with m show ?thesis by (intro exI [of _ m]) simp
    next
      case 2
      with N obtain k where "k \<le> N" "P y k" by blast
      then show ?thesis by (intro exI [of _ k]) simp
    qed
  qed
  then show ?case by blast
qed

lemma wait_loop_returns:
  assumes "books ids (pending, responses)" and "distinct ids"
    and "\<forall>rid \<in> set pending. \<exists>m. n < m \<and> m \<le> N \<and> file_exists tr m (rid @ ''.dat.gz'')"
  shows "\<exists>more. wait_loop tr (length ids) n pending responses = Some (Inr (responses @ more))
           \<and> distinct (keys more) \<and> set (keys more) = set pending
           \<and> (\<forall>(rid, t) \<in> set more.
                 \<exists>m. n < m \<and> file_exists tr m (rid @ ''.dat.gz'')
                   \<and> (\<forall>j. n < j \<and> j < m \<longrightarrow> \<not> file_exists tr j (rid @ ''.dat.gz''))
                   \<and> t = file_text tr m (rid @ ''.dat.gz''))"
  using assms(1,3)
proof (induction k \<equiv> "N - n" arbitrary: n pending responses)
  case 0
  then have "pending = []" by (cases pending) auto
  then show ?case
    by (intro exI [of _ "[]"]) (simp add: wait_loop.simps keys_def)
next
  case (Suc k)
  show ?case
  proof (cases "pending = []")
    case True
    then show ?thesis
      by (intro exI [of _ "[]"]) (simp add: wait_loop.simps keys_def)
  next
    case False
    let ?ex = "\<lambda>rid. file_exists tr (Suc n) (rid @ ''.dat.gz'')"
    let ?p = "filter (\<lambda>rid. \<not> ?ex rid) pending"
    let ?zs = "map (\<lambda>rid. (rid, file_text tr (Suc n) (rid @ ''.dat.gz''))) (filter ?ex pending)"
    from Suc.prems(1) have d: "distinct pending" and i: "set pending \<inter> set (keys responses) = {}"
      by (simp_all add: books_def)
    have pe: "poll tr (Suc n) pending responses = (?p, responses @ ?zs)"
      by (rule poll_eq [OF d i])
    from poll_books [OF Suc.prems(1), of tr "Suc n"] pe
    have b': "books ids (?p, responses @ ?zs)" by simp
    have later: "\<forall>rid \<in> set ?p. \<exists>m. Suc n < m \<and> m \<le> N \<and> file_exists tr m (rid @ ''.dat.gz'')"
    proof
      fix rid
      assume r: "rid \<in> set ?p"
      with Suc.prems(2) obtain m where m: "n < m" "m \<le> N" "file_exists tr m (rid @ ''.dat.gz'')"
        by auto
      from r m(3) have "m \<noteq> Suc n" by auto
      with m show "\<exists>m. Suc n < m \<and> m \<le> N \<and> file_exists tr m (rid @ ''.dat.gz'')"
        by (intro exI [of _ m]) simp
    qed
    from Suc.hyps(2) have "k = N - Suc n" by simp
    from Suc.hyps(1) [OF this b' later] obtain more where
      run: "wait_loop tr (length ids) (Suc n) ?p (responses @ ?zs) = Some (Inr ((responses @ ?zs) @ more))"
      and dm: "distinct (keys more)" and sm: "set (keys more) = set ?p"
      and em: "\<forall>(rid, t) \<in> set more.
                 \<exists>m. Suc n < m \<and> file_exists tr m (rid @ ''.dat.gz'')
                   \<and> (\<forall>j. Suc n < j \<and> j < m \<longrightarrow> \<not> file_exists tr j (rid @ ''.dat.gz''))
                   \<and> t = file_text tr m (rid @ ''.dat.gz'')"
      by blast
    from wait_loop_step [OF Suc.prems(1) assms(2) False, of tr n] pe run
    have 1: "wait_loop tr (length ids) n pending responses = Some (Inr (responses @ (?zs @ more)))"
      by simp
    have kz: "keys ?zs = filter ?ex pending" by (simp add: keys_def comp_def)
    from d dm sm kz have 2: "distinct (keys (?zs @ more))"
      by (auto simp: keys_def)
    from sm kz have 3: "set (keys (?zs @ more)) = set pending"
      by (auto simp: keys_def)
    have 4: "\<forall>(rid, t) \<in> set (?zs @ more).
                 \<exists>m. n < m \<and> file_exists tr m (rid @ ''.dat.gz'')
                   \<and> (\<forall>j. n < j \<and> j < m \<longrightarrow> \<not> file_exists tr j (rid @ ''.dat.gz''))
                   \<and> t = file_text tr m (rid @ ''.dat.gz'')"
    proof (intro ballI, clarify)
      fix rid t
      assume "(rid, t) \<in> set (?zs @ more)"
      then consider "(rid, t) \<in> set ?zs" | "(rid, t) \<in> set more" by auto
      then show "\<exists>m. n < m \<and> file_exists tr m (rid @ ''.dat.gz'')
                   \<and> (\<forall>j. n < j \<and> j < m \<longrightarrow> \<not> file_exists tr j (rid @ ''.dat.gz''))
                   \<and> t = file_text tr m (rid @ ''.dat.gz'')"
      proof cases
        case 1
        then show ?thesis by (intro exI [of _ "Suc n"]) auto
      next
        case 2
        with em obtain m where m: "Suc n < m" "file_exists tr m (rid @ ''.dat.gz'')"
          "\<forall>j. Suc n < j \<and> j < m \<longrightarrow> \<not> file_exists tr j (rid @ ''.dat.gz'')"
          "t = file_text tr m (rid @ ''.dat.gz'')"
          by blast
        from 2 have "rid \<in> set (keys more)" by (force simp: keys_def)
        with sm have now: "\<not> file_exists tr (Suc n) (rid @ ''.dat.gz'')" by simp
        have "\<not> file_exists tr j (rid @ ''.dat.gz'')" if "n < j" "j < m" for j
        proof (cases "j = Suc n")
          case True
          with now show ?thesis by simp
        next
          case False
          with that m(3) show ?thesis by simp
        qed
        with m show ?thesis by (intro exI [of _ m]) simp
      qed
    qed
    from 1 2 3 4 show ?thesis by blast
  qed
qed

lemma dict_get_member: "distinct (keys d) \<Longrightarrow> (k, v) \<in> set d \<Longrightarrow> dict_get d k = Some v"
  by (simp add: dict_get_def keys_def)

text \<open>
  C8. When, for every submitted identifier, the server answers in some round that
  the reply file exists, \<^verbatim>\<open>request\<close> returns (the loop ends, without an exception).
  The mapping it returns has exactly the submitted identifiers as keys, each once, and
  the value of an identifier is the reply text read in the first round in which the
  server reported its file, whichever round that is for each identifier.
\<close>

theorem all_replies_returned:
  assumes "distinct (keys requests)"
    and "\<forall>rid \<in> set (keys requests). \<exists>m. 1 \<le> m \<and> file_exists tr m (rid @ ''.dat.gz'')"
  shows "\<exists>responses.
           request tr requests = Some (Inr responses)
           \<and> distinct (keys responses)
           \<and> set (keys responses) = set (keys requests)
           \<and> length responses = length requests
           \<and> (\<forall>rid \<in> set (keys requests).
                 \<exists>m. 1 \<le> m \<and> file_exists tr m (rid @ ''.dat.gz'')
                   \<and> (\<forall>j. 1 \<le> j \<and> j < m \<longrightarrow> \<not> file_exists tr j (rid @ ''.dat.gz''))
                   \<and> dict_get responses rid = Some (file_text tr m (rid @ ''.dat.gz'')))"
proof -
  let ?ids = "keys requests"
  have len: "length ?ids = length requests" by (simp add: keys_def)
  from bounded_rounds [OF assms(2)] obtain N where
    N: "\<forall>rid \<in> set ?ids. \<exists>m \<le> N. 1 \<le> m \<and> file_exists tr m (rid @ ''.dat.gz'')"
    by blast
  have ev: "\<forall>rid \<in> set ?ids. \<exists>m. 0 < m \<and> m \<le> N \<and> file_exists tr m (rid @ ''.dat.gz'')"
  proof
    fix rid
    assume "rid \<in> set ?ids"
    with N obtain m where "m \<le> N" "1 \<le> m" "file_exists tr m (rid @ ''.dat.gz'')" by blast
    then show "\<exists>m. 0 < m \<and> m \<le> N \<and> file_exists tr m (rid @ ''.dat.gz'')"
      by (intro exI [of _ m]) simp
  qed
  from wait_loop_returns [OF books_start [OF assms(1)] assms(1) ev]
  obtain more where
    run: "wait_loop tr (length ?ids) 0 ?ids [] = Some (Inr more)"
    and dm: "distinct (keys more)" and sm: "set (keys more) = set ?ids"
    and em: "\<forall>(rid, t) \<in> set more.
                 \<exists>m. 0 < m \<and> file_exists tr m (rid @ ''.dat.gz'')
                   \<and> (\<forall>j. 0 < j \<and> j < m \<longrightarrow> \<not> file_exists tr j (rid @ ''.dat.gz''))
                   \<and> t = file_text tr m (rid @ ''.dat.gz'')"
    by auto
  have 1: "request tr requests = Some (Inr more)"
    using run submit_pending [of requests] len
    by (simp add: request_def case_prod_unfold)
  from dm sm assms(1) have "length (keys more) = length ?ids"
    by (metis distinct_card)
  then have 2: "length more = length requests" by (simp add: keys_def)
  have 3: "\<exists>m. 1 \<le> m \<and> file_exists tr m (rid @ ''.dat.gz'')
                   \<and> (\<forall>j. 1 \<le> j \<and> j < m \<longrightarrow> \<not> file_exists tr j (rid @ ''.dat.gz''))
                   \<and> dict_get more rid = Some (file_text tr m (rid @ ''.dat.gz''))"
    if "rid \<in> set ?ids" for rid
  proof -
    from that sm obtain t where t: "(rid, t) \<in> set more" by (force simp: keys_def)
    with em obtain m where m: "0 < m" "file_exists tr m (rid @ ''.dat.gz'')"
      "\<forall>j. 0 < j \<and> j < m \<longrightarrow> \<not> file_exists tr j (rid @ ''.dat.gz'')"
      "t = file_text tr m (rid @ ''.dat.gz'')"
      by blast
    from dict_get_member [OF dm t] m show ?thesis
      by (intro exI [of _ m]) simp
  qed
  from 1 dm sm 2 3 show ?thesis by blast
qed

theorem all_replies_returned_witness:
  "distinct (keys [(''a'', ''ra''), (''b'', ''rb''), (''c'', ''rc'')])
   \<and> (\<exists>responses.
        request
          \<lparr>file_exists = (\<lambda>n name. if name = ''a.dat.gz'' then 1 \<le> n else 2 \<le> n),
           file_text = (\<lambda>n name. ''reply in '' @ name)\<rparr>
          [(''a'', ''ra''), (''b'', ''rb''), (''c'', ''rc'')] = Some (Inr responses)
        \<and> distinct (keys responses)
        \<and> set (keys responses) = {''a'', ''b'', ''c''}
        \<and> length responses = 3
        \<and> dict_get responses ''a'' = Some ''reply in a.dat.gz''
        \<and> dict_get responses ''b'' = Some ''reply in b.dat.gz''
        \<and> dict_get responses ''c'' = Some ''reply in c.dat.gz'')"
proof -
  let ?tr = "\<lparr>file_exists = (\<lambda>n name. if name = ''a.dat.gz'' then 1 \<le> n else 2 \<le> n),
           file_text = (\<lambda>n name. ''reply in '' @ name)\<rparr> :: transport"
  let ?reqs = "[(''a'', ''ra''), (''b'', ''rb''), (''c'', ''rc'')] :: (string, string) dict"
  have d: "distinct (keys ?reqs)"
    by (simp add: keys_def)
  have e: "\<forall>rid \<in> set (keys ?reqs). \<exists>m. 1 \<le> m \<and> file_exists ?tr m (rid @ ''.dat.gz'')"
    by (auto simp: keys_def intro: exI [of _ 2])
  from all_replies_returned [OF d e] obtain responses where
    r: "request ?tr ?reqs = Some (Inr responses)" "distinct (keys responses)"
      "set (keys responses) = set (keys ?reqs)" "length responses = length ?reqs"
    and v: "\<forall>rid \<in> set (keys ?reqs).
                 \<exists>m. 1 \<le> m \<and> file_exists ?tr m (rid @ ''.dat.gz'')
                   \<and> (\<forall>j. 1 \<le> j \<and> j < m \<longrightarrow> \<not> file_exists ?tr j (rid @ ''.dat.gz''))
                   \<and> dict_get responses rid = Some (file_text ?tr m (rid @ ''.dat.gz''))"
    by blast
  from v have "dict_get responses ''a'' = Some ''reply in a.dat.gz''"
    and "dict_get responses ''b'' = Some ''reply in b.dat.gz''"
    and "dict_get responses ''c'' = Some ''reply in c.dat.gz''"
    by (auto simp: keys_def)
  with r d show ?thesis by (auto simp: keys_def)
qed

end
